theory Spec2Isabelle
  imports Main
begin

section \<open>The RAVL tree of RAVL\_tree.c\<close>

text \<open>
  A node of the C program is a struct with the fields key, value, height, size, left and
  right (the order in which createNode fills them); a pointer to a node is either NULL or
  the address of a node that owns its two children. No node is reachable along two paths
  (every operation rewires a child pointer with the result of the recursive call on that
  child), so a pointer is modelled as the subtree it points to: \<open>Null\<close> is the NULL
  pointer. Keys, heights and sizes are C ints; keys are only compared and copied, heights
  and sizes only grow by one per node, so they are modelled as unbounded integers (the
  model agrees with the program on every tree of fewer than 2^31 nodes). The payload is an
  opaque pointer, here a value of an arbitrary type.
\<close>

datatype 'v RAVL_Node =
    Null
  | Node (n_key: int) (n_value: 'v) (n_height: int) (n_size: int)
         (n_left: "'v RAVL_Node") (n_right: "'v RAVL_Node")

subsection \<open>Helper functions\<close>

fun height :: "'v RAVL_Node \<Rightarrow> int" where
  "height Null = 0"
| "height (Node k v h s l r) = h"

fun size_node :: "'v RAVL_Node \<Rightarrow> int" where
  "size_node Null = 0"
| "size_node (Node k v h s l r) = s"

fun updateHeight :: "'v RAVL_Node \<Rightarrow> 'v RAVL_Node" where
  "updateHeight Null = Null"
| "updateHeight (Node k v h s l r) =
     (let right_height = (case r of Null \<Rightarrow> 0 | Node _ _ rh _ _ _ \<Rightarrow> rh);
          left_height = (case l of Null \<Rightarrow> 0 | Node _ _ lh _ _ _ \<Rightarrow> lh)
      in if left_height > right_height
         then Node k v (left_height + 1) s l r
         else Node k v (right_height + 1) s l r)"

fun updateSize :: "'v RAVL_Node \<Rightarrow> 'v RAVL_Node" where
  "updateSize Null = Null"
| "updateSize (Node k v h s l r) =
     (let right_size = (case r of Null \<Rightarrow> 0 | Node _ _ _ rs _ _ \<Rightarrow> rs);
          left_size = (case l of Null \<Rightarrow> 0 | Node _ _ _ ls _ _ \<Rightarrow> ls)
      in Node k v h (left_size + right_size + 1) l r)"

fun balanceFactor :: "'v RAVL_Node \<Rightarrow> int" where
  "balanceFactor Null = 0"
| "balanceFactor (Node k v h s l r) =
     (let right_height = (if r = Null then 0 else height r);
          left_height = (if l = Null then 0 else height l)
      in left_height - right_height)"

text \<open>
  The rotations relink two nodes and then recompute height and size of the old root and
  of the new root, in that order.
\<close>

fun rightRotation :: "'v RAVL_Node \<Rightarrow> 'v RAVL_Node" where
  "rightRotation Null = Null"
| "rightRotation (Node k v h s Null r) = Node k v h s Null r"
| "rightRotation (Node k v h s (Node lk lv lh ls ll lr) r) =
     (let shift = lr;
          node = updateSize (updateHeight (Node k v h s shift r))
      in updateSize (updateHeight (Node lk lv lh ls ll node)))"

fun leftRotation :: "'v RAVL_Node \<Rightarrow> 'v RAVL_Node" where
  "leftRotation Null = Null"
| "leftRotation (Node k v h s l Null) = Node k v h s l Null"
| "leftRotation (Node k v h s l (Node rk rv rh rs rl rr)) =
     (let shift = rl;
          node = updateSize (updateHeight (Node k v h s l shift))
      in updateSize (updateHeight (Node rk rv rh rs node rr)))"

fun rightLeftRotation :: "'v RAVL_Node \<Rightarrow> 'v RAVL_Node" where
  "rightLeftRotation Null = Null"
| "rightLeftRotation (Node k v h s l r) =
     (if r = Null then Node k v h s l r
      else leftRotation (Node k v h s l (rightRotation r)))"

fun leftRightRotation :: "'v RAVL_Node \<Rightarrow> 'v RAVL_Node" where
  "leftRightRotation Null = Null"
| "leftRightRotation (Node k v h s l r) =
     (if l = Null then Node k v h s l r
      else rightRotation (Node k v h s (leftRotation l) r))"

text \<open>
  The loop of successor walks down the left spine of the right child; \<open>leftmost\<close> is
  that loop, started at a non-NULL node.
\<close>

fun leftmost :: "'v RAVL_Node \<Rightarrow> 'v RAVL_Node" where
  "leftmost Null = Null"
| "leftmost (Node k v h s l r) =
     (if l \<noteq> Null then leftmost l else Node k v h s l r)"

fun successor :: "'v RAVL_Node \<Rightarrow> 'v RAVL_Node" where
  "successor Null = Null"
| "successor (Node k v h s l r) = (if r \<noteq> Null then leftmost r else Null)"

text \<open>
  createNode returns NULL when malloc fails. Whether the allocation succeeds is not
  decided by the program, so it is an argument of the model.
\<close>

definition createNode :: "bool \<Rightarrow> int \<Rightarrow> 'v \<Rightarrow> 'v RAVL_Node" where
  "createNode alloc_ok key val =
     (if alloc_ok then Node key val 1 1 Null Null else Null)"

subsection \<open>Required functions\<close>

fun search :: "'v RAVL_Node \<Rightarrow> int \<Rightarrow> 'v RAVL_Node" where
  "search Null key = Null"
| "search (Node k v h s l r) key =
     (if k = key then Node k v h s l r
      else if k < key then search r key
      else search l key)"

text \<open>
  The balance step of insert, after height and size of the node have been recomputed. It
  reads \<open>node->left->key\<close> (or \<open>node->right->key\<close>) without a NULL test; the result is
  \<open>None\<close> where that pointer is NULL and the program dereferences it. (insert calls it
  on a node only; on NULL the balance factor is 0 and nothing is dereferenced.)
\<close>

fun insert_balance :: "'v RAVL_Node \<Rightarrow> int \<Rightarrow> 'v RAVL_Node option" where
  "insert_balance Null key = Some Null"
| "insert_balance (Node k v h s l r) key =
     (let node = Node k v h s l r;
          balance = balanceFactor node in
      if balance > 1 then
        (case l of
           Null \<Rightarrow> None
         | Node lk _ _ _ _ _ \<Rightarrow>
             if key > lk then Some (leftRightRotation node)
             else Some (rightRotation node))
      else if balance < -1 then
        (case r of
           Null \<Rightarrow> None
         | Node rk _ _ _ _ _ \<Rightarrow>
             if key < rk then Some (rightLeftRotation node)
             else Some (leftRotation node))
      else Some node)"

fun insert_ravl :: "bool \<Rightarrow> 'v RAVL_Node \<Rightarrow> int \<Rightarrow> 'v \<Rightarrow> 'v RAVL_Node option" where
  "insert_ravl alloc_ok Null key val = Some (createNode alloc_ok key val)"
| "insert_ravl alloc_ok (Node k v h s l r) key val =
     (if key < k then
        (case insert_ravl alloc_ok l key val of
           None \<Rightarrow> None
         | Some l' \<Rightarrow> insert_balance (updateSize (updateHeight (Node k v h s l' r))) key)
      else if key > k then
        (case insert_ravl alloc_ok r key val of
           None \<Rightarrow> None
         | Some r' \<Rightarrow> insert_balance (updateSize (updateHeight (Node k v h s l r'))) key)
      else Some (Node k v h s l r))"

text \<open>
  The balance step of delete. On NULL the balance factor is 0, both tests
  \<open>balance > 1\<close> and \<open>balance < -1\<close> fail before \<open>node->left\<close> or \<open>node->right\<close> is
  read, and NULL is returned.
\<close>

fun delete_balance :: "'v RAVL_Node \<Rightarrow> 'v RAVL_Node" where
  "delete_balance Null = Null"
| "delete_balance (Node k v h s l r) =
     (let node = Node k v h s l r;
          balance = balanceFactor node in
      if balance > 1 \<and> balanceFactor l \<ge> 0 then rightRotation node
      else if balance > 1 \<and> balanceFactor l < 0 then leftRightRotation node
      else if balance < -1 \<and> balanceFactor r \<ge> 0 then leftRotation node
      else if balance < -1 \<and> balanceFactor r < 0 then rightLeftRotation node
      else node)"

text \<open>
  delete. With at most one child the node is freed and replaced by that child (or by
  NULL). With two children the key of the successor is copied into the node (the value
  is left as it is) and that key is deleted from the right subtree. In every case the
  resulting node has height and size recomputed and is rebalanced.
\<close>

fun delete :: "'v RAVL_Node \<Rightarrow> int \<Rightarrow> 'v RAVL_Node" where
  "delete Null key = Null"
| "delete (Node k v h s l r) key =
     (if key < k then
        delete_balance (updateSize (updateHeight (Node k v h s (delete l key) r)))
      else if key > k then
        delete_balance (updateSize (updateHeight (Node k v h s l (delete r key))))
      else if l = Null \<or> r = Null then
        (let temp = (if l = Null \<and> r = Null then Null
                     else if l = Null then r else l)
         in delete_balance (updateSize (updateHeight temp)))
      else
        (let temp_key = n_key (successor (Node k v h s l r))
         in delete_balance
              (updateSize (updateHeight (Node temp_key v h s l (delete r temp_key))))))"

text \<open>
  NOTIN is a macro of RAVL\_tree.h; it is an argument of the model.
\<close>

fun rank :: "int \<Rightarrow> 'v RAVL_Node \<Rightarrow> int \<Rightarrow> int" where
  "rank NOTIN Null key = NOTIN"
| "rank NOTIN (Node k v h s l r) key =
     (if k = key then size_node l + 1
      else if key > k then size_node l + 1 + rank NOTIN r key
      else rank NOTIN l key)"

fun findRank :: "'v RAVL_Node \<Rightarrow> int \<Rightarrow> 'v RAVL_Node" where
  "findRank Null rnk = Null"
| "findRank (Node k v h s l r) rnk =
     (let r' = size_node l + 1 in
      if r' = rnk then Node k v h s l r
      else if rnk < r' then findRank l rnk
      else findRank r (rnk - r'))"

subsection \<open>The data-model invariants\<close>

fun inorder_keys :: "'v RAVL_Node \<Rightarrow> int list" where
  "inorder_keys Null = []"
| "inorder_keys (Node k v h s l r) = inorder_keys l @ k # inorder_keys r"

definition keys :: "'v RAVL_Node \<Rightarrow> int set" where
  "keys t = set (inorder_keys t)"

text \<open>Binary-search-tree order: every key on the left is smaller, every key on the
  right is greater, at every node.\<close>

fun bst :: "'v RAVL_Node \<Rightarrow> bool" where
  "bst Null = True"
| "bst (Node k v h s l r) =
     (bst l \<and> bst r \<and> (\<forall>x \<in> keys l. x < k) \<and> (\<forall>x \<in> keys r. k < x))"

text \<open>The cached height and size of every node are those of its children plus one, an
  absent child counting 0.\<close>

fun aug :: "'v RAVL_Node \<Rightarrow> bool" where
  "aug Null = True"
| "aug (Node k v h s l r) =
     (aug l \<and> aug r \<and> s = 1 + size_node l + size_node r
      \<and> h = 1 + max (height l) (height r))"

text \<open>AVL balance: the balance factor of every node is -1, 0 or 1.\<close>

fun balanced :: "'v RAVL_Node \<Rightarrow> bool" where
  "balanced Null = True"
| "balanced (Node k v h s l r) =
     (balanced l \<and> balanced r \<and> \<bar>balanceFactor (Node k v h s l r)\<bar> \<le> 1)"

definition invariants :: "'v RAVL_Node \<Rightarrow> bool" where
  "invariants t = (bst t \<and> balanced t \<and> aug t)"

text \<open>
  A relation used to show that insert keeps the balance. It says what an insert into a
  balanced tree returns: the height is the old one, or it is
  one more and then, unless the tree was empty, the root is not the inserted key and the
  side of the root on which the key lies is the higher one.\<close>

definition grown :: "'v RAVL_Node \<Rightarrow> 'v RAVL_Node \<Rightarrow> int \<Rightarrow> bool" where
  "grown t t' key =
     (height t' = height t \<or>
      (height t' = height t + 1 \<and>
       (t \<noteq> Null \<longrightarrow>
          (case t' of Null \<Rightarrow> False
           | Node k v h s l r \<Rightarrow>
               (key < k \<longrightarrow> height l = height r + 1) \<and>
               (key > k \<longrightarrow> height r = height l + 1) \<and> key \<noteq> k))))"

subsection \<open>Sequences of operations\<close>

text \<open>
  A caller keeps the root and replaces it by the result of every insert and delete. An
  insert comes with the outcome of its allocation. The run stops with \<open>None\<close> if an
  operation dereferences NULL.
\<close>

datatype 'v operation = Insert bool int 'v | Delete int

fun apply_op :: "'v RAVL_Node \<Rightarrow> 'v operation \<Rightarrow> 'v RAVL_Node option" where
  "apply_op root (Insert alloc_ok key val) = insert_ravl alloc_ok root key val"
| "apply_op root (Delete key) = Some (delete root key)"

fun run_ops :: "'v RAVL_Node \<Rightarrow> 'v operation list \<Rightarrow> 'v RAVL_Node option" where
  "run_ops root [] = Some root"
| "run_ops root (op # ops) =
     (case apply_op root op of None \<Rightarrow> None | Some root' \<Rightarrow> run_ops root' ops)"

section \<open>Properties of the helper functions\<close>

subsection \<open>Recomputing height and size\<close>

lemma updateHeight_Node [simp]:
  "updateHeight (Node k v h s l r) = Node k v (max (height l) (height r) + 1) s l r"
  by (cases l; cases r) (auto simp: Let_def)

lemma updateSize_Node [simp]:
  "updateSize (Node k v h s l r) = Node k v h (size_node l + size_node r + 1) l r"
  by (cases l; cases r) (auto simp: Let_def)

lemma balanceFactor_Node [simp]:
  "balanceFactor (Node k v h s l r) = height l - height r"
  by (cases l; cases r) (auto simp: Let_def)

declare updateHeight.simps(2) [simp del]

declare updateSize.simps(2) [simp del]

declare balanceFactor.simps(2) [simp del]

subsection \<open>Rotations keep the in-order key sequence and the cached summaries\<close>

lemma inorder_rightRotation: "inorder_keys (rightRotation t) = inorder_keys t"
  by (induction t rule: rightRotation.induct) simp_all

lemma inorder_leftRotation: "inorder_keys (leftRotation t) = inorder_keys t"
  by (induction t rule: leftRotation.induct) simp_all

lemma inorder_rightLeftRotation: "inorder_keys (rightLeftRotation t) = inorder_keys t"
proof (cases t)
  case (Node k v h s l r)
  have "inorder_keys (leftRotation (Node k v h s l (rightRotation r))) =
        inorder_keys (Node k v h s l (rightRotation r))"
    by (rule inorder_leftRotation)
  then show ?thesis using Node by (simp add: inorder_rightRotation)
qed simp

lemma inorder_leftRightRotation: "inorder_keys (leftRightRotation t) = inorder_keys t"
proof (cases t)
  case (Node k v h s l r)
  have "inorder_keys (rightRotation (Node k v h s (leftRotation l) r)) =
        inorder_keys (Node k v h s (leftRotation l) r)"
    by (rule inorder_rightRotation)
  then show ?thesis using Node by (simp add: inorder_leftRotation)
qed simp

lemma aug_rightRotation: "aug t \<Longrightarrow> aug (rightRotation t)"
  by (induction t rule: rightRotation.induct) simp_all

lemma aug_leftRotation: "aug t \<Longrightarrow> aug (leftRotation t)"
  by (induction t rule: leftRotation.induct) simp_all

text \<open>The double rotations leave the height of the node stale between their two steps;
  the second step recomputes it.\<close>

lemma aug_rightRotation_children:
  "aug l \<Longrightarrow> aug r \<Longrightarrow> l \<noteq> Null \<Longrightarrow> aug (rightRotation (Node k v h s l r))"
  by (cases l) simp_all

lemma aug_leftRotation_children:
  "aug l \<Longrightarrow> aug r \<Longrightarrow> r \<noteq> Null \<Longrightarrow> aug (leftRotation (Node k v h s l r))"
  by (cases r) simp_all

lemma leftRotation_Null: "leftRotation t = Null \<longleftrightarrow> t = Null"
  by (induction t rule: leftRotation.induct) simp_all

lemma rightRotation_Null: "rightRotation t = Null \<longleftrightarrow> t = Null"
  by (induction t rule: rightRotation.induct) simp_all

lemma aug_rightLeftRotation: "aug t \<Longrightarrow> aug (rightLeftRotation t)"
proof (cases t)
  case (Node k v h s l r)
  assume a: "aug t"
  show ?thesis
  proof (cases "r = Null")
    case True
    then show ?thesis using a Node by simp
  next
    case False
    have "aug (leftRotation (Node k v h s l (rightRotation r)))"
      using a Node False
      by (intro aug_leftRotation_children) (simp_all add: aug_rightRotation rightRotation_Null)
    then show ?thesis using Node False by simp
  qed
qed simp

lemma aug_leftRightRotation: "aug t \<Longrightarrow> aug (leftRightRotation t)"
proof (cases t)
  case (Node k v h s l r)
  assume a: "aug t"
  show ?thesis
  proof (cases "l = Null")
    case True
    then show ?thesis using a Node by simp
  next
    case False
    have "aug (rightRotation (Node k v h s (leftRotation l) r))"
      using a Node False
      by (intro aug_rightRotation_children) (simp_all add: aug_leftRotation leftRotation_Null)
    then show ?thesis using Node False by simp
  qed
qed simp

subsection \<open>The invariants in terms of the in-order key sequence\<close>

lemma bst_sorted: "bst t \<longleftrightarrow> sorted_wrt (<) (inorder_keys t)"
  by (induction t) (fastforce simp: keys_def sorted_wrt_append)+

lemma bst_cong: "inorder_keys t = inorder_keys t' \<Longrightarrow> bst t = bst t'"
  by (simp add: bst_sorted)

lemma aug_nonneg: "aug t \<Longrightarrow> 0 \<le> height t \<and> 0 \<le> size_node t"
  by (induction t) auto

lemma aug_size: "aug t \<Longrightarrow> size_node t = int (length (inorder_keys t))"
  by (induction t) auto

lemma aug_height_pos: "aug t \<Longrightarrow> t \<noteq> Null \<Longrightarrow> 1 \<le> height t"
  using aug_nonneg by (cases t) (auto simp: max_def)

subsection \<open>The balance steps\<close>

lemma aug_delete_balance: "aug t \<Longrightarrow> aug (delete_balance t)"
  by (cases t)
    (simp_all add: Let_def aug_rightRotation aug_leftRotation aug_rightLeftRotation
      aug_leftRightRotation del: rightRotation.simps leftRotation.simps rightLeftRotation.simps leftRightRotation.simps aug.simps)

lemma inorder_delete_balance: "inorder_keys (delete_balance t) = inorder_keys t"
  by (cases t)
    (simp_all add: Let_def inorder_rightRotation inorder_leftRotation inorder_rightLeftRotation
      inorder_leftRightRotation del: rightRotation.simps leftRotation.simps rightLeftRotation.simps leftRightRotation.simps inorder_keys.simps)

lemma insert_balance_cases:
  assumes "aug t"
  shows "insert_balance t key = Some t \<or> insert_balance t key = Some (rightRotation t)
       \<or> insert_balance t key = Some (leftRotation t)
       \<or> insert_balance t key = Some (leftRightRotation t)
       \<or> insert_balance t key = Some (rightLeftRotation t)"
proof (cases t)
  case Null
  then show ?thesis by simp
next
  case (Node k v h s l r)
  have hl: "0 \<le> height l" and hr: "0 \<le> height r"
    using assms Node aug_nonneg[of l] aug_nonneg[of r] by simp_all
  show ?thesis
  proof (cases l; cases r)
    fix lk lv lh ls ll lr rk rv rh rs rl rr
    assume "l = Node lk lv lh ls ll lr" "r = Node rk rv rh rs rl rr"
    then show ?thesis unfolding Node
      by (simp add: Let_def del: rightRotation.simps leftRotation.simps
          rightLeftRotation.simps leftRightRotation.simps)
  next
    fix lk lv lh ls ll lr
    assume "l = Node lk lv lh ls ll lr" "r = Null"
    then show ?thesis using hl unfolding Node
      by (simp add: Let_def del: rightRotation.simps leftRotation.simps
          rightLeftRotation.simps leftRightRotation.simps)
  next
    fix rk rv rh rs rl rr
    assume "l = Null" "r = Node rk rv rh rs rl rr"
    then show ?thesis using hr unfolding Node
      by (simp add: Let_def del: rightRotation.simps leftRotation.simps
          rightLeftRotation.simps leftRightRotation.simps)
  next
    assume "l = Null" "r = Null"
    then show ?thesis unfolding Node by (simp add: Let_def)
  qed
qed

lemma insert_balance_aug:
  assumes "aug t"
  shows "\<exists>t'. insert_balance t key = Some t' \<and> aug t' \<and> inorder_keys t' = inorder_keys t"
  using insert_balance_cases[OF assms, of key] assms
  by (auto simp: inorder_rightRotation inorder_leftRotation inorder_rightLeftRotation
      inorder_leftRightRotation aug_rightRotation aug_leftRotation aug_rightLeftRotation
      aug_leftRightRotation)

subsection \<open>insert\<close>

lemma aug_update_id: "aug t \<Longrightarrow> updateSize (updateHeight t) = t"
  by (cases t) simp_all

lemma keys_Node [simp]: "keys (Node k v h s l r) = insert k (keys l \<union> keys r)"
  by (auto simp: keys_def)

lemma keys_Null [simp]: "keys Null = {}"
  by (simp add: keys_def)

lemma update_Node_inorder:
  "inorder_keys (updateSize (updateHeight (Node k v h s l r))) = inorder_keys l @ k # inorder_keys r"
  by simp

lemma update_Node_aug:
  "aug l \<Longrightarrow> aug r \<Longrightarrow> aug (updateSize (updateHeight (Node k v h s l r)))"
  by simp

lemma insert_step:
  assumes "aug l" "aug r"
  shows "\<exists>t'. insert_balance (updateSize (updateHeight (Node k v h s l r))) key = Some t'
     \<and> aug t' \<and> inorder_keys t' = inorder_keys l @ k # inorder_keys r"
  using insert_balance_aug[OF update_Node_aug[OF assms], of k v h s key]
  by (simp only: update_Node_inorder)

lemma insert_ravl_aug:
  "aug t \<Longrightarrow> \<exists>t'. insert_ravl ok t key val = Some t' \<and> aug t'
      \<and> keys t' = (if ok then insert key (keys t) else keys t)"
proof (induction t)
  case Null
  then show ?case by (simp add: createNode_def)
next
  case (Node k v h s l r)
  have al: "aug l" and ar: "aug r" using Node.prems by simp_all
  show ?case
  proof (cases "key < k")
    case True
    from Node.IH(1)[OF al] obtain l' where
      l': "insert_ravl ok l key val = Some l'" "aug l'"
          "keys l' = (if ok then insert key (keys l) else keys l)" by blast
    from insert_step[OF l'(2) ar, of k v h s key] obtain t' where
      t': "insert_balance (updateSize (updateHeight (Node k v h s l' r))) key = Some t'"
          "aug t'" "inorder_keys t' = inorder_keys l' @ k # inorder_keys r" by blast
    have "keys t' = insert k (keys l' \<union> keys r)" using t'(3) by (auto simp: keys_def)
    then show ?thesis using True l' t' by (auto simp del: insert_balance.simps updateHeight_Node updateSize_Node)
  next
    case False
    show ?thesis
    proof (cases "key > k")
      case True
      from Node.IH(2)[OF ar] obtain r' where
        r': "insert_ravl ok r key val = Some r'" "aug r'"
            "keys r' = (if ok then insert key (keys r) else keys r)" by blast
      from insert_step[OF al r'(2), of k v h s key] obtain t' where
        t': "insert_balance (updateSize (updateHeight (Node k v h s l r'))) key = Some t'"
            "aug t'" "inorder_keys t' = inorder_keys l @ k # inorder_keys r'" by blast
      have "keys t' = insert k (keys l \<union> keys r')" using t'(3) by (auto simp: keys_def)
      then show ?thesis using True False r' t' by (auto simp del: insert_balance.simps updateHeight_Node updateSize_Node)
    next
      case F2: False
      then show ?thesis using False Node.prems by auto
    qed
  qed
qed

lemma insert_ravl_bst:
  "aug t \<Longrightarrow> bst t \<Longrightarrow> insert_ravl ok t key val = Some t' \<Longrightarrow> bst t'"
proof (induction t arbitrary: t')
  case Null
  then show ?case by (auto simp: createNode_def split: if_splits)
next
  case (Node k v h s l r)
  have al: "aug l" and ar: "aug r" and bl: "bst l" and br: "bst r" using Node.prems by simp_all
  show ?case
  proof (cases "key < k")
    case True
    from insert_ravl_aug[OF al, of ok key val] obtain l' where
      l': "insert_ravl ok l key val = Some l'" "aug l'"
          "keys l' = (if ok then insert key (keys l) else keys l)" by blast
    from insert_step[OF l'(2) ar, of k v h s key] obtain t'' where
      t'': "insert_balance (updateSize (updateHeight (Node k v h s l' r))) key = Some t''"
          "inorder_keys t'' = inorder_keys l' @ k # inorder_keys r" by blast
    have "t' = t''" using Node.prems(3) True l'(1) t''(1) by (simp del: insert_balance.simps updateHeight_Node updateSize_Node)
    moreover have "bst (Node k v h s l' r)"
      using Node.IH(1)[OF al bl l'(1)] Node.prems(2) l'(3) True by (auto split: if_splits)
    moreover have "inorder_keys t'' = inorder_keys (Node k v h s l' r)" using t''(2) by simp
    ultimately show ?thesis using bst_cong by blast
  next
    case False
    show ?thesis
    proof (cases "key > k")
      case True
      from insert_ravl_aug[OF ar, of ok key val] obtain r' where
        r': "insert_ravl ok r key val = Some r'" "aug r'"
            "keys r' = (if ok then insert key (keys r) else keys r)" by blast
      from insert_step[OF al r'(2), of k v h s key] obtain t'' where
        t'': "insert_balance (updateSize (updateHeight (Node k v h s l r'))) key = Some t''"
            "inorder_keys t'' = inorder_keys l @ k # inorder_keys r'" by blast
      have "t' = t''" using Node.prems(3) True False r'(1) t''(1) by (simp del: insert_balance.simps updateHeight_Node updateSize_Node)
      moreover have "bst (Node k v h s l r')"
        using Node.IH(2)[OF ar br r'(1)] Node.prems(2) r'(3) True by (auto split: if_splits)
      moreover have "inorder_keys t'' = inorder_keys (Node k v h s l r')" using t''(2) by simp
      ultimately show ?thesis using bst_cong by blast
    next
      case F2: False
      then show ?thesis using False Node.prems by auto
    qed
  qed
qed

lemma insert_ravl_length:
  "aug t \<Longrightarrow> key \<notin> keys t \<Longrightarrow> insert_ravl True t key val = Some t' \<Longrightarrow>
   length (inorder_keys t') = Suc (length (inorder_keys t))"
proof (induction t arbitrary: t')
  case Null
  then show ?case by (auto simp: createNode_def)
next
  case (Node k v h s l r)
  have al: "aug l" and ar: "aug r" using Node.prems by simp_all
  show ?case
  proof (cases "key < k")
    case True
    from insert_ravl_aug[OF al, of True key val] obtain l' where
      l': "insert_ravl True l key val = Some l'" "aug l'" by blast
    from insert_step[OF l'(2) ar, of k v h s key] obtain t'' where
      t'': "insert_balance (updateSize (updateHeight (Node k v h s l' r))) key = Some t''"
          "inorder_keys t'' = inorder_keys l' @ k # inorder_keys r" by blast
    have "t' = t''" using Node.prems(3) True l'(1) t''(1) by (simp del: insert_balance.simps updateHeight_Node updateSize_Node)
    moreover have "length (inorder_keys l') = Suc (length (inorder_keys l))"
      using Node.IH(1)[OF al _ l'(1)] Node.prems(2) by simp
    ultimately show ?thesis using t''(2) by simp
  next
    case False
    then have gt: "key > k" using Node.prems(2) by auto
    from insert_ravl_aug[OF ar, of True key val] obtain r' where
      r': "insert_ravl True r key val = Some r'" "aug r'" by blast
    from insert_step[OF al r'(2), of k v h s key] obtain t'' where
      t'': "insert_balance (updateSize (updateHeight (Node k v h s l r'))) key = Some t''"
          "inorder_keys t'' = inorder_keys l @ k # inorder_keys r'" by blast
    have "t' = t''" using Node.prems(3) gt False r'(1) t''(1) by (simp del: insert_balance.simps updateHeight_Node updateSize_Node)
    moreover have "length (inorder_keys r') = Suc (length (inorder_keys r))"
      using Node.IH(2)[OF ar _ r'(1)] Node.prems(2) by simp
    ultimately show ?thesis using t''(2) by simp
  qed
qed

subsection \<open>delete and search\<close>

lemma leftmost_Null: "leftmost t = Null \<longleftrightarrow> t = Null"
  by (induction t) auto

lemma inorder_leftmost:
  "t \<noteq> Null \<Longrightarrow> \<exists>rest. inorder_keys t = n_key (leftmost t) # rest"
  by (induction t) auto

lemma successor_key:
  "r \<noteq> Null \<Longrightarrow> \<exists>rest. inorder_keys r = n_key (successor (Node k v h s l r)) # rest"
  using inorder_leftmost by simp

lemma delete_aug: "aug t \<Longrightarrow> aug (delete t key)"
proof (induction t arbitrary: key)
  case Null
  then show ?case by simp
next
  case (Node k v h s l r)
  have al: "aug l" and ar: "aug r" using Node.prems by simp_all
  have step: "\<And>k' l' r'. aug l' \<Longrightarrow> aug r' \<Longrightarrow>
      aug (delete_balance (updateSize (updateHeight (Node k' v h s l' r'))))"
    by (intro aug_delete_balance update_Node_aug)
  have one: "\<And>c. aug c \<Longrightarrow> aug (delete_balance (updateSize (updateHeight c)))"
    by (simp add: aug_update_id aug_delete_balance)
  show ?case
  proof (cases "key < k")
    case True
    then show ?thesis using step[OF Node.IH(1)[OF al] ar]
      by (simp del: delete_balance.simps updateHeight_Node updateSize_Node)
  next
    case False
    show ?thesis
    proof (cases "key > k")
      case True
      then show ?thesis using False step[OF al Node.IH(2)[OF ar]]
        by (simp del: delete_balance.simps updateHeight_Node updateSize_Node)
    next
      case F2: False
      show ?thesis
      proof (cases "l = Null \<or> r = Null")
        case True
        then show ?thesis using False F2 one[OF al] one[OF ar]
          by (auto simp del: delete_balance.simps)
      next
        case F3: False
        then show ?thesis using False F2 step[OF al Node.IH(2)[OF ar]]
          by (simp add: Let_def del: delete_balance.simps updateHeight_Node updateSize_Node
              successor.simps)
      qed
    qed
  qed
qed

lemma sorted_wrt_less_remove1:
  "sorted_wrt (<) (xs :: int list) \<Longrightarrow> sorted_wrt (<) (remove1 x xs)"
  by (simp add: strict_sorted_iff sorted_remove1)

lemma delete_inorder:
  "bst t \<Longrightarrow> inorder_keys (delete t key) = remove1 key (inorder_keys t)"
proof (induction t arbitrary: key)
  case Null
  then show ?case by simp
next
  case (Node k v h s l r)
  have bl: "bst l" and br: "bst r" and
    lk: "\<forall>x \<in> set (inorder_keys l). x < k" and rk: "\<forall>x \<in> set (inorder_keys r). k < x"
    using Node.prems by (simp_all add: keys_def)
  have step: "\<And>k' l' r'. inorder_keys (delete_balance (updateSize (updateHeight (Node k' v h s l' r'))))
     = inorder_keys l' @ k' # inorder_keys r'"
    by (simp only: inorder_delete_balance update_Node_inorder)
  show ?case
  proof (cases "key < k")
    case True
    then have "key \<notin> set (inorder_keys r)" using rk by auto
    then show ?thesis using True Node.IH(1)[OF bl, of key] step[of k "delete l key" r]
      by (simp add: remove1_append remove1_idem del: delete_balance.simps updateHeight_Node updateSize_Node)
  next
    case False
    show ?thesis
    proof (cases "key > k")
      case True
      then have "key \<notin> set (inorder_keys l)" using lk by auto
      then show ?thesis using True Node.IH(2)[OF br, of key] step[of k l "delete r key"]
        by (simp add: remove1_append del: delete_balance.simps updateHeight_Node updateSize_Node)
    next
      case F2: False
      then have eq: "key = k" using False by simp
      have nl: "k \<notin> set (inorder_keys l)" using lk by auto
      show ?thesis
      proof (cases "l = Null \<or> r = Null")
        case True
        have "inorder_keys (delete_balance (updateSize (updateHeight l))) = inorder_keys l"
             "inorder_keys (delete_balance (updateSize (updateHeight r))) = inorder_keys r"
          by (cases l; cases r; simp add: inorder_delete_balance del: delete_balance.simps)+
        then show ?thesis using True eq nl
          by (auto simp add: remove1_append simp del: delete_balance.simps)
      next
        case False
        then have "r \<noteq> Null" by simp
        from successor_key[OF this, of k v h s l] obtain rest where
          rest: "inorder_keys r = n_key (successor (Node k v h s l r)) # rest" by blast
        let ?m = "n_key (successor (Node k v h s l r))"
        have "inorder_keys (delete (Node k v h s l r) key)
            = inorder_keys l @ ?m # inorder_keys (delete r ?m)"
          using False eq step[of ?m l "delete r ?m"]
          by (simp add: Let_def del: delete_balance.simps updateHeight_Node updateSize_Node successor.simps)
        also have "\<dots> = inorder_keys l @ ?m # rest"
          using Node.IH(2)[OF br, of ?m] rest by simp
        also have "\<dots> = remove1 key (inorder_keys (Node k v h s l r))"
          using eq nl rest by (simp add: remove1_append)
        finally show ?thesis .
      qed
    qed
  qed
qed

lemma delete_bst: "bst t \<Longrightarrow> bst (delete t key)"
  by (simp add: bst_sorted delete_inorder sorted_wrt_less_remove1)

lemma delete_keys: "bst t \<Longrightarrow> keys (delete t key) = keys t - {key}"
  by (simp add: keys_def delete_inorder bst_sorted strict_sorted_iff)

lemma search_absent: "key \<notin> keys t \<Longrightarrow> search t key = Null"
  by (induction t) auto

lemma search_present:
  "bst t \<Longrightarrow> key \<in> keys t \<Longrightarrow> search t key \<noteq> Null \<and> n_key (search t key) = key"
  by (induction t) (auto simp: )

subsection \<open>rank and findRank; operations that change nothing\<close>

lemma findRank_Null_iff:
  "aug t \<Longrightarrow> findRank t rnk = Null \<longleftrightarrow> rnk < 1 \<or> rnk > size_node t"
proof (induction t arbitrary: rnk)
  case Null
  then show ?case by auto
next
  case (Node k v h s l r)
  have al: "aug l" and ar: "aug r" and s: "s = 1 + size_node l + size_node r"
    using Node.prems by simp_all
  have nn: "0 \<le> size_node l" "0 \<le> size_node r"
    using aug_nonneg[OF al] aug_nonneg[OF ar] by simp_all
  show ?case
    using Node.IH(1)[OF al, of rnk] Node.IH(2)[OF ar, of "rnk - (size_node l + 1)"] s nn
    by (auto simp: Let_def)
qed

lemma findRank_key_in:
  "findRank t rnk \<noteq> Null \<Longrightarrow> n_key (findRank t rnk) \<in> keys t"
  by (induction t arbitrary: rnk) (auto simp: Let_def split: if_splits)

lemma rank_bounds:
  "aug t \<Longrightarrow> bst t \<Longrightarrow> key \<in> keys t \<Longrightarrow>
   1 \<le> rank NOTIN t key \<and> rank NOTIN t key \<le> size_node t"
proof (induction t)
  case Null
  then show ?case by simp
next
  case (Node k v h s l r)
  have al: "aug l" and ar: "aug r" and bl: "bst l" and br: "bst r"
    and s: "s = 1 + size_node l + size_node r"
    using Node.prems by simp_all
  have nn: "0 \<le> size_node l" "0 \<le> size_node r"
    using aug_nonneg[OF al] aug_nonneg[OF ar] by simp_all
  show ?case
    using Node.IH(1)[OF al bl] Node.IH(2)[OF ar br] Node.prems(2,3) s nn
    by auto
qed

lemma findRank_rank:
  "aug t \<Longrightarrow> bst t \<Longrightarrow> key \<in> keys t \<Longrightarrow> findRank t (rank NOTIN t key) = search t key"
proof (induction t)
  case Null
  then show ?case by simp
next
  case (Node k v h s l r)
  have al: "aug l" and ar: "aug r" and bl: "bst l" and br: "bst r"
    using Node.prems by simp_all
  show ?case
  proof (cases "k = key")
    case True
    then show ?thesis by (simp add: Let_def)
  next
    case False
    show ?thesis
    proof (cases "key > k")
      case True
      then have in_r: "key \<in> keys r" using Node.prems(2,3) False by auto
      have "1 \<le> rank NOTIN r key" using rank_bounds[OF ar br in_r] by simp
      then show ?thesis using True False Node.IH(2)[OF ar br in_r]
        by (simp add: Let_def)
    next
      case F2: False
      then have in_l: "key \<in> keys l" using Node.prems(2,3) False by auto
      have "rank NOTIN l key \<le> size_node l" using rank_bounds[OF al bl in_l] by simp
      then show ?thesis using F2 False Node.IH(1)[OF al bl in_l]
        by (simp add: Let_def)
    qed
  qed
qed

lemma rank_findRank:
  "aug t \<Longrightarrow> bst t \<Longrightarrow> 1 \<le> rnk \<Longrightarrow> rnk \<le> size_node t \<Longrightarrow>
   rank NOTIN t (n_key (findRank t rnk)) = rnk"
proof (induction t arbitrary: rnk)
  case Null
  then show ?case by simp
next
  case (Node k v h s l r)
  have al: "aug l" and ar: "aug r" and bl: "bst l" and br: "bst r"
    and s: "s = 1 + size_node l + size_node r"
    using Node.prems by simp_all
  show ?case
  proof (cases "size_node l + 1 = rnk")
    case True
    then show ?thesis by (simp add: Let_def)
  next
    case False
    show ?thesis
    proof (cases "rnk < size_node l + 1")
      case True
      then have rng: "1 \<le> rnk" "rnk \<le> size_node l" using Node.prems(3) by simp_all
      have "findRank l rnk \<noteq> Null" using findRank_Null_iff[OF al, of rnk] rng by simp
      then have "n_key (findRank l rnk) \<in> keys l" by (rule findRank_key_in)
      then have "n_key (findRank l rnk) < k" using Node.prems(2) by simp
      then show ?thesis using True False Node.IH(1)[OF al bl rng]
        by (simp add: Let_def)
    next
      case F2: False
      let ?r = "rnk - (size_node l + 1)"
      have rng: "1 \<le> ?r" "?r \<le> size_node r" using F2 False Node.prems(4) s by simp_all
      have "findRank r ?r \<noteq> Null" using findRank_Null_iff[OF ar, of ?r] rng by simp
      then have "n_key (findRank r ?r) \<in> keys r" by (rule findRank_key_in)
      then have "k < n_key (findRank r ?r)" using Node.prems(2) by simp
      then show ?thesis using F2 False Node.IH(2)[OF ar br rng]
        by (simp add: Let_def)
    qed
  qed
qed

lemma delete_balance_id: "balanced t \<Longrightarrow> delete_balance t = t"
  by (cases t) (auto simp: Let_def)

lemma insert_balance_id: "balanced t \<Longrightarrow> insert_balance t key = Some t"
  by (cases t) (auto simp: Let_def)

lemma delete_absent_id:
  "balanced t \<Longrightarrow> aug t \<Longrightarrow> key \<notin> keys t \<Longrightarrow> delete t key = t"
proof (induction t)
  case Null
  then show ?case by simp
next
  case (Node k v h s l r)
  have upd: "updateSize (updateHeight (Node k v h s l r)) = Node k v h s l r"
    using Node.prems(2) by (rule aug_update_id)
  have bal: "delete_balance (Node k v h s l r) = Node k v h s l r"
    using Node.prems(1) by (rule delete_balance_id)
  have "delete l key = l" "delete r key = r"
    using Node by simp_all
  then show ?case using upd bal Node.prems(3)
    by (simp del: delete_balance.simps updateHeight_Node updateSize_Node)
qed

lemma insert_present_id:
  "bst t \<Longrightarrow> balanced t \<Longrightarrow> aug t \<Longrightarrow> key \<in> keys t \<Longrightarrow> insert_ravl ok t key val = Some t"
proof (induction t)
  case Null
  then show ?case by simp
next
  case (Node k v h s l r)
  have upd: "updateSize (updateHeight (Node k v h s l r)) = Node k v h s l r"
    using Node.prems(3) by (rule aug_update_id)
  have bal: "insert_balance (Node k v h s l r) key = Some (Node k v h s l r)"
    using Node.prems(2) by (rule insert_balance_id)
  have "key < k \<Longrightarrow> insert_ravl ok l key val = Some l"
    using Node by auto
  moreover have "key > k \<Longrightarrow> insert_ravl ok r key val = Some r"
    using Node by auto
  ultimately show ?case using upd bal
    by (simp del: insert_balance.simps updateHeight_Node updateSize_Node)
qed

section \<open>insert keeps the AVL balance\<close>

lemma insert_balance_left:
  assumes "aug l'" "balanced l'" "aug r" "balanced r" "aug l"
    and l: "height l - height r \<in> {-1, 0, 1}" and g: "grown l l' key" and lt: "key < k"
  shows "\<exists>t'. insert_balance (updateSize (updateHeight (Node k v h s l' r))) key = Some t'
      \<and> balanced t' \<and> grown (Node k v (1 + max (height l) (height r)) s l r) t' key"
proof (cases "height l' - height r > 1")
  case False
  then show ?thesis using assms aug_nonneg[of l'] aug_nonneg[of r] aug_nonneg[of l]
    by (auto simp: grown_def Let_def)
next
  case True
  then have hl: "height l' = height l + 1" "height l = height r + 1"
    using g l by (auto simp: grown_def)
  then have "l \<noteq> Null" using aug_nonneg[OF assms(3)] by auto
  then obtain lk lv lh ls ll lr where l': "l' = Node lk lv lh ls ll lr"
      and side: "key < lk \<longrightarrow> height ll = height lr + 1" "key > lk \<longrightarrow> height lr = height ll + 1"
        "key \<noteq> lk"
    using g hl by (cases l') (auto simp: grown_def)
  show ?thesis
  proof (cases "key > lk")
    case F: False
    then show ?thesis using True l' side hl assms(1,2,3,4)
      by (auto simp: grown_def Let_def)
  next
    case T: True
    then have "height lr = height ll + 1" using side by simp
    moreover have "aug ll" "aug lr" using assms(1) l' by simp_all
    ultimately have "lr \<noteq> Null" using aug_nonneg[of ll] by auto
    then obtain mk mv mh ms ml mr where lr: "lr = Node mk mv mh ms ml mr"
      by (cases lr) auto
    show ?thesis using True T l' lr side hl assms(1,2,3,4)
      by (auto simp: grown_def Let_def)
  qed
qed

lemma insert_balance_right:
  assumes "aug r'" "balanced r'" "aug l" "balanced l" "aug r"
    and l: "height l - height r \<in> {-1, 0, 1}" and g: "grown r r' key" and gt: "key > k"
  shows "\<exists>t'. insert_balance (updateSize (updateHeight (Node k v h s l r'))) key = Some t'
      \<and> balanced t' \<and> grown (Node k v (1 + max (height l) (height r)) s l r) t' key"
proof (cases "height l - height r' < -1")
  case False
  then show ?thesis using assms aug_nonneg[of r'] aug_nonneg[of r] aug_nonneg[of l]
    by (auto simp: grown_def Let_def)
next
  case True
  then have hr: "height r' = height r + 1" "height r = height l + 1"
    using g l by (auto simp: grown_def)
  then have "r \<noteq> Null" using aug_nonneg[OF assms(3)] by auto
  then obtain rk rv rh rs rl rr where r': "r' = Node rk rv rh rs rl rr"
      and side: "key < rk \<longrightarrow> height rl = height rr + 1" "key > rk \<longrightarrow> height rr = height rl + 1"
        "key \<noteq> rk"
    using g hr by (cases r') (auto simp: grown_def)
  show ?thesis
  proof (cases "key < rk")
    case F: False
    then show ?thesis using True r' side hr assms(1,2,3,4)
      by (auto simp: grown_def Let_def)
  next
    case T: True
    then have "height rl = height rr + 1" using side by simp
    moreover have "aug rl" "aug rr" using assms(1) r' by simp_all
    ultimately have "rl \<noteq> Null" using aug_nonneg[of rr] by auto
    then obtain mk mv mh ms ml mr where rl: "rl = Node mk mv mh ms ml mr"
      by (cases rl) auto
    show ?thesis using True T r' rl side hr assms(1,2,3,4)
      by (auto simp: grown_def Let_def)
  qed
qed

lemma insert_ravl_balanced:
  "aug t \<Longrightarrow> balanced t \<Longrightarrow>
   \<exists>t'. insert_ravl ok t key val = Some t' \<and> balanced t' \<and> grown t t' key"
proof (induction t)
  case Null
  then show ?case by (simp add: createNode_def grown_def)
next
  case (Node k v h s l r)
  have al: "aug l" and ar: "aug r" and bl: "balanced l" and br: "balanced r"
    and h: "h = 1 + max (height l) (height r)"
    and bf: "height l - height r \<in> {-1, 0, 1}"
    using Node.prems by auto
  show ?case
  proof (cases "key < k")
    case True
    from Node.IH(1)[OF al bl] obtain l' where
      l': "insert_ravl ok l key val = Some l'" "balanced l'" "grown l l' key" by blast
    have al': "aug l'" using insert_ravl_aug[OF al, of ok key val] l'(1) by auto
    from insert_balance_left[OF al' l'(2) ar br al bf l'(3) True, of v h s]
    show ?thesis using True l'(1) h
      by (simp del: insert_balance.simps updateHeight_Node updateSize_Node)
  next
    case False
    show ?thesis
    proof (cases "key > k")
      case True
      from Node.IH(2)[OF ar br] obtain r' where
        r': "insert_ravl ok r key val = Some r'" "balanced r'" "grown r r' key" by blast
      have ar': "aug r'" using insert_ravl_aug[OF ar, of ok key val] r'(1) by auto
      from insert_balance_right[OF ar' r'(2) al bl ar bf r'(3) True, of v h s]
      show ?thesis using True False r'(1) h
        by (simp del: insert_balance.simps updateHeight_Node updateSize_Node)
    next
      case F2: False
      then show ?thesis using False Node.prems by (simp add: grown_def)
    qed
  qed
qed

lemma insert_keeps_invariants:
  "invariants t \<Longrightarrow> \<exists>t'. insert_ravl alloc_ok t key val = Some t' \<and> invariants t'"
proof -
  assume inv: "invariants t"
  then have a: "aug t" and b: "bst t" and c: "balanced t" by (simp_all add: invariants_def)
  from insert_ravl_balanced[OF a c, of alloc_ok key val] obtain t' where
    t': "insert_ravl alloc_ok t key val = Some t'" "balanced t'" by blast
  moreover have "aug t'" using insert_ravl_aug[OF a, of alloc_ok key val] t'(1) by auto
  moreover have "bst t'" using insert_ravl_bst[OF a b t'(1)] .
  ultimately show ?thesis by (simp add: invariants_def)
qed

section \<open>Sequences of operations keep order and summaries\<close>

lemma apply_op_invariant:
  assumes "aug t" "bst t"
  shows "\<exists>t'. apply_op t op = Some t' \<and> aug t' \<and> bst t'"
proof (cases op)
  case (Insert ok key val)
  from insert_ravl_aug[OF assms(1), of ok key val] obtain t' where
    t': "insert_ravl ok t key val = Some t'" "aug t'" by blast
  then show ?thesis using Insert insert_ravl_bst[OF assms t'(1)] by simp
next
  case (Delete key)
  then show ?thesis using assms by (simp add: delete_aug delete_bst)
qed

lemma run_ops_invariant:
  "aug t \<Longrightarrow> bst t \<Longrightarrow> \<exists>t'. run_ops t ops = Some t' \<and> aug t' \<and> bst t'"
proof (induction ops arbitrary: t)
  case Nil
  then show ?case by simp
next
  case (Cons op ops)
  from apply_op_invariant[OF Cons.prems, of op] obtain t1 where
    t1: "apply_op t op = Some t1" "aug t1" "bst t1" by blast
  then show ?case using Cons.IH[OF t1(2,3)] by simp
qed

section \<open>The claims\<close>

text \<open>
  C1. Claim: in every tree obtained from the empty tree by inserts and deletes, every
  node has a balance factor of absolute value at most 1. The program does not keep this:
  in the right-heavy case of delete the test on the right child is the one of the
  left-heavy case, not its mirror. Inserting 2, 1, 4, 3 gives the balanced tree
  2(1, 4(3, -)); deleting 1 leaves node 2 with balance factor -2 and a right child of
  balance factor 1, delete applies a single left rotation, and the result 4(2(-, 3), -)
  has balance factor 2 at its root. (insert alone keeps the balance:
  \<open>insert_keeps_invariants\<close>.)
\<close>

theorem delete_unbalances:
  "run_ops Null [Insert True 2 (), Insert True 1 (), Insert True 4 (), Insert True 3 ()] =
     Some (Node 2 () 3 4 (Node 1 () 1 1 Null Null)
                         (Node 4 () 2 2 (Node 3 () 1 1 Null Null) Null))
   \<and> balanced (Node 2 () 3 4 (Node 1 () 1 1 Null Null)
                              (Node 4 () 2 2 (Node 3 () 1 1 Null Null) Null))
   \<and> run_ops Null [Insert True 2 (), Insert True 1 (), Insert True 4 (), Insert True 3 (),
                    Delete 1] =
     Some (Node 4 () 3 3 (Node 2 () 2 2 Null (Node 3 () 1 1 Null Null)) Null)
   \<and> balanceFactor (Node 4 () 3 3 (Node 2 () 2 2 Null (Node 3 () 1 1 Null Null)) Null) = 2
   \<and> \<not> balanced (Node 4 () 3 3 (Node 2 () 2 2 Null (Node 3 () 1 1 Null Null)) Null)"
  by (simp add: createNode_def Let_def)

text \<open>
  C2. Claim: rank returns NOTIN for every key that is not in the tree. The program
  returns NOTIN at NULL only; on the way back every step to the right adds
  \<open>size(left) + 1\<close> to it. In the tree that holds the single key 5 the rank of 6 is
  \<open>1 + NOTIN\<close>, whatever the value of NOTIN, and with NOTIN = -1 the absent key 6 and
  the present key 3 have the same rank 1 in the tree 5(3, -).
\<close>

theorem rank_absent_key_not_NOTIN:
  "rank NOTIN (Node 5 () 1 1 Null Null) 6 = 1 + NOTIN
   \<and> rank NOTIN (Node 5 () 1 1 Null Null) 6 \<noteq> NOTIN
   \<and> search (Node 5 () 1 1 Null Null) 6 = Null
   \<and> rank (-1) (Node 5 () 2 2 (Node 3 () 1 1 Null Null) Null) 6 = 1
   \<and> rank (-1) (Node 5 () 2 2 (Node 3 () 1 1 Null Null) Null) 3 = 1"
  by simp

text \<open>
  C3. Claim: in delete a node of balance factor below -1 gets a left rotation when its
  right child has a balance factor of at most 0, and a right-left rotation when that is
  positive. The program tests \<open>balanceFactor(node->right) >= 0\<close> for the left rotation
  and \<open>< 0\<close> for the right-left rotation. Deleting 1 from 2(1, 4(3, -)) reaches node 2
  with balance factor -2 and a right child of balance factor 1: the program applies the
  left rotation, which differs from the right-left rotation of the claim. At the node
  2(1, 5(4, 7(-, 8))), of balance factor -2 with a right child of balance factor -1, the
  program applies the right-left rotation, which differs from the left rotation of the
  claim.
\<close>

theorem delete_right_heavy_rotation:
  "balanceFactor (Node 2 () 3 3 Null (Node 4 () 2 2 (Node 3 () 1 1 Null Null) Null)) = - 2
   \<and> balanceFactor (Node 4 () 2 2 (Node 3 () 1 1 Null Null) Null) = 1
   \<and> delete_balance (Node 2 () 3 3 Null (Node 4 () 2 2 (Node 3 () 1 1 Null Null) Null))
       = leftRotation (Node 2 () 3 3 Null (Node 4 () 2 2 (Node 3 () 1 1 Null Null) Null))
   \<and> leftRotation (Node 2 () 3 3 Null (Node 4 () 2 2 (Node 3 () 1 1 Null Null) Null))
       \<noteq> rightLeftRotation (Node 2 () 3 3 Null (Node 4 () 2 2 (Node 3 () 1 1 Null Null) Null))
   \<and> delete (Node 2 () 3 4 (Node 1 () 1 1 Null Null)
                           (Node 4 () 2 2 (Node 3 () 1 1 Null Null) Null)) 1
       = leftRotation (Node 2 () 3 3 Null (Node 4 () 2 2 (Node 3 () 1 1 Null Null) Null))
   \<and> balanceFactor (Node 2 () 4 6 (Node 1 () 1 1 Null Null)
          (Node 5 () 3 4 (Node 4 () 1 1 Null Null)
                         (Node 7 () 2 2 Null (Node 8 () 1 1 Null Null)))) = - 2
   \<and> balanceFactor (Node 5 () 3 4 (Node 4 () 1 1 Null Null)
                         (Node 7 () 2 2 Null (Node 8 () 1 1 Null Null))) = - 1
   \<and> delete_balance (Node 2 () 4 6 (Node 1 () 1 1 Null Null)
          (Node 5 () 3 4 (Node 4 () 1 1 Null Null)
                         (Node 7 () 2 2 Null (Node 8 () 1 1 Null Null)))) = rightLeftRotation (Node 2 () 4 6 (Node 1 () 1 1 Null Null)
          (Node 5 () 3 4 (Node 4 () 1 1 Null Null)
                         (Node 7 () 2 2 Null (Node 8 () 1 1 Null Null))))
   \<and> rightLeftRotation (Node 2 () 4 6 (Node 1 () 1 1 Null Null)
          (Node 5 () 3 4 (Node 4 () 1 1 Null Null)
                         (Node 7 () 2 2 Null (Node 8 () 1 1 Null Null)))) \<noteq> leftRotation (Node 2 () 4 6 (Node 1 () 1 1 Null Null)
          (Node 5 () 3 4 (Node 4 () 1 1 Null Null)
                         (Node 7 () 2 2 Null (Node 8 () 1 1 Null Null))))"
  by (simp add: Let_def)

text \<open>
  C4. Every sequence of inserts (whatever the outcome of their allocations) and deletes,
  run from the empty tree, runs to its end without a NULL dereference, and in the
  resulting tree every node has only smaller keys in its left subtree and only greater
  keys in its right subtree.
\<close>

theorem run_ops_bst: "\<exists>t. run_ops Null ops = Some t \<and> bst t"
  using run_ops_invariant[of Null ops] by auto

theorem run_ops_bst_witness:
  "run_ops Null [Insert True 30 (), Insert True 10 (), Insert False 5 (), Insert True 20 (),
                 Insert True 40 (), Delete 20, Delete 7] =
     Some (Node 30 () 2 3 (Node 10 () 1 1 Null Null) (Node 40 () 1 1 Null Null))
   \<and> bst (Node 30 () 2 3 (Node 10 () 1 1 Null Null) (Node 40 () 1 1 Null Null))"
  using run_ops_bst[of "[Insert True 30 (), Insert True 10 (), Insert False 5 (),
     Insert True 20 (), Insert True 40 (), Delete 20, Delete 7]"]
  by (simp add: createNode_def Let_def)

text \<open>
  C5. Every sequence of inserts and deletes, run from the empty tree, runs to its end,
  and in the resulting tree every node n has
  \<open>size(n) = 1 + size(n.left) + size(n.right)\<close> and
  \<open>height(n) = 1 + max(height(n.left), height(n.right))\<close>, where height and size of an
  absent child are 0.
\<close>

theorem run_ops_aug: "\<exists>t. run_ops Null ops = Some t \<and> aug t"
  using run_ops_invariant[of Null ops] by auto

theorem run_ops_aug_witness:
  "run_ops Null [Insert True 10 (), Insert True 20 (), Insert True 30 (), Delete 20] =
     Some (Node 30 () 2 2 (Node 10 () 1 1 Null Null) Null)
   \<and> aug (Node 30 () 2 2 (Node 10 () 1 1 Null Null) Null)"
  using run_ops_aug[of "[Insert True 10 (), Insert True 20 (), Insert True 30 (), Delete 20]"]
  by (simp add: createNode_def Let_def)

text \<open>
  C6. In a tree that satisfies the invariants, findRank at the rank of a present key k
  returns a node, and its key is k; and for every r from 1 to the size of the root,
  findRank returns a node and the rank of its key is r. (The rank of a present key does
  not depend on the value of NOTIN.)
\<close>

theorem rank_findRank_inverse:
  "invariants t \<Longrightarrow>
     (k \<in> keys t \<longrightarrow>
        findRank t (rank NOTIN t k) \<noteq> Null \<and> n_key (findRank t (rank NOTIN t k)) = k)
     \<and> (1 \<le> r \<and> r \<le> size_node t \<longrightarrow>
          findRank t r \<noteq> Null \<and> rank NOTIN t (n_key (findRank t r)) = r)"
  unfolding invariants_def
  using findRank_rank[of t k NOTIN] search_present[of t k] rank_findRank[of t r NOTIN]
    findRank_Null_iff[of t r]
  by simp

theorem rank_findRank_inverse_witness:
  "invariants (Node 20 () 2 3 (Node 10 () 1 1 Null Null) (Node 30 () 1 1 Null Null))
   \<and> 30 \<in> keys (Node 20 () 2 3 (Node 10 () 1 1 Null Null) (Node 30 () 1 1 Null Null))
   \<and> rank (-1) (Node 20 () 2 3 (Node 10 () 1 1 Null Null) (Node 30 () 1 1 Null Null)) 30 = 3
   \<and> findRank (Node 20 () 2 3 (Node 10 () 1 1 Null Null) (Node 30 () 1 1 Null Null)) 3
       = Node 30 () 1 1 Null Null
   \<and> (1::int) \<le> 3
   \<and> 3 \<le> size_node (Node 20 () 2 3 (Node 10 () 1 1 Null Null) (Node 30 () 1 1 Null Null))"
  using rank_findRank_inverse[of "Node 20 () 2 3 (Node 10 () 1 1 Null Null) (Node 30 () 1 1 Null Null)" 30 "-1" 3]
  by (simp add: invariants_def Let_def)

text \<open>
  C7. Let T satisfy the invariants and k be a key that is not in T. The insert of k
  (its allocation succeeding) returns a tree T' in which search finds k; after the
  delete of k from T' search for k returns NULL, and the size of the root is the one of
  T' less 1, which is the size of T.
\<close>

theorem insert_delete_round_trip:
  assumes "invariants T" "k \<notin> keys T"
  shows "\<exists>T'. insert_ravl True T k v = Some T'
           \<and> search T' k \<noteq> Null
           \<and> search (delete T' k) k = Null
           \<and> size_node (delete T' k) = size_node T' - 1
           \<and> size_node (delete T' k) = size_node T"
proof -
  have a: "aug T" and b: "bst T" using assms(1) by (simp_all add: invariants_def)
  from insert_ravl_aug[OF a, of True k v] obtain T' where
    T': "insert_ravl True T k v = Some T'" "aug T'" "keys T' = insert k (keys T)" by auto
  have b': "bst T'" using insert_ravl_bst[OF a b T'(1)] .
  have len: "length (inorder_keys T') = Suc (length (inorder_keys T))"
    using insert_ravl_length[OF a assms(2) T'(1)] .
  have "k \<in> keys T'" using T'(3) by simp
  then have found: "search T' k \<noteq> Null" using search_present[OF b'] by simp
  have "k \<notin> keys (delete T' k)" using delete_keys[OF b'] by simp
  then have gone: "search (delete T' k) k = Null" by (rule search_absent)
  have "k \<in> set (inorder_keys T')" using \<open>k \<in> keys T'\<close> by (simp add: keys_def)
  then have "length (inorder_keys (delete T' k)) = length (inorder_keys T') - 1"
    using delete_inorder[OF b', of k] by (simp add: length_remove1)
  then have sz: "size_node (delete T' k) = size_node T' - 1"
    using aug_size[OF delete_aug[OF T'(2), of k]] aug_size[OF T'(2)] len by simp
  have "size_node T' = size_node T + 1" using aug_size[OF T'(2)] aug_size[OF a] len by simp
  then show ?thesis using T'(1) found gone sz by simp
qed

theorem insert_delete_round_trip_witness:
  "invariants (Node 20 () 2 2 (Node 10 () 1 1 Null Null) Null)
   \<and> 30 \<notin> keys (Node 20 () 2 2 (Node 10 () 1 1 Null Null) Null)
   \<and> insert_ravl True (Node 20 () 2 2 (Node 10 () 1 1 Null Null) Null) 30 () =
       Some (Node 20 () 2 3 (Node 10 () 1 1 Null Null) (Node 30 () 1 1 Null Null))
   \<and> search (delete (Node 20 () 2 3 (Node 10 () 1 1 Null Null) (Node 30 () 1 1 Null Null)) 30) 30 = Null
   \<and> size_node (delete (Node 20 () 2 3 (Node 10 () 1 1 Null Null) (Node 30 () 1 1 Null Null)) 30) = 2"
  using insert_delete_round_trip[of "Node 20 () 2 2 (Node 10 () 1 1 Null Null) Null" 30 "()"]
  by (simp add: invariants_def createNode_def Let_def)

text \<open>
  C8. In a tree T that satisfies the invariants, the insert of a key that is already in
  T returns T itself, whatever the value and the outcome of the allocation: the same
  nodes with the same keys, values, heights and sizes, hence the same size of the root
  and the same in-order key sequence, and the value stored with the key is the old one.
\<close>

theorem insert_duplicate_noop:
  "invariants T \<Longrightarrow> k \<in> keys T \<Longrightarrow> insert_ravl alloc_ok T k v = Some T"
  unfolding invariants_def using insert_present_id[of T k alloc_ok v] by simp

theorem insert_duplicate_noop_witness:
  "invariants (Node 20 (1::nat) 2 3 (Node 10 2 1 1 Null Null) (Node 30 3 1 1 Null Null))
   \<and> 10 \<in> keys (Node 20 (1::nat) 2 3 (Node 10 2 1 1 Null Null) (Node 30 3 1 1 Null Null))
   \<and> insert_ravl True
        (Node 20 (1::nat) 2 3 (Node 10 2 1 1 Null Null) (Node 30 3 1 1 Null Null)) 10 7
       = Some (Node 20 1 2 3 (Node 10 2 1 1 Null Null) (Node 30 3 1 1 Null Null))"
  using insert_duplicate_noop[of
      "Node 20 (1::nat) 2 3 (Node 10 2 1 1 Null Null) (Node 30 3 1 1 Null Null)" 10 True 7]
  by (simp add: invariants_def)

text \<open>
  C9. In a tree that satisfies the invariants, findRank returns NULL for the rank r if
  and only if r < 1 or r is greater than the size of the root; so it returns a node for
  every r from 1 to the size of the root.
\<close>

theorem findRank_absent_iff:
  "invariants t \<Longrightarrow> findRank t r = Null \<longleftrightarrow> r < 1 \<or> r > size_node t"
  unfolding invariants_def using findRank_Null_iff[of t r] by simp

theorem findRank_absent_iff_witness:
  "invariants (Node 20 () 2 3 (Node 10 () 1 1 Null Null) (Node 30 () 1 1 Null Null))
   \<and> findRank (Node 20 () 2 3 (Node 10 () 1 1 Null Null) (Node 30 () 1 1 Null Null)) 4 = Null
   \<and> 4 > size_node (Node 20 () 2 3 (Node 10 () 1 1 Null Null) (Node 30 () 1 1 Null Null))"
  using findRank_absent_iff[of "Node 20 () 2 3 (Node 10 () 1 1 Null Null) (Node 30 () 1 1 Null Null)" 4]
  by (simp add: invariants_def)

text \<open>
  C10. In a tree T that satisfies the invariants, the delete of a key that is not in T
  returns T itself: the same nodes with the same keys, values, heights and sizes.
\<close>

theorem delete_absent_noop:
  "invariants T \<Longrightarrow> k \<notin> keys T \<Longrightarrow> delete T k = T"
  unfolding invariants_def using delete_absent_id[of T k] by simp

theorem delete_absent_noop_witness:
  "invariants (Node 20 () 2 3 (Node 10 () 1 1 Null Null) (Node 30 () 1 1 Null Null))
   \<and> 25 \<notin> keys (Node 20 () 2 3 (Node 10 () 1 1 Null Null) (Node 30 () 1 1 Null Null))
   \<and> delete (Node 20 () 2 3 (Node 10 () 1 1 Null Null) (Node 30 () 1 1 Null Null)) 25
       = Node 20 () 2 3 (Node 10 () 1 1 Null Null) (Node 30 () 1 1 Null Null)"
  using delete_absent_noop[of "Node 20 () 2 3 (Node 10 () 1 1 Null Null) (Node 30 () 1 1 Null Null)" 25]
  by (simp add: invariants_def)

end
